theory Spec2Isabelle
  imports Complex_Main "HOL-Library.Word"
begin

section \<open>JavaScript strings\<close>

text \<open>
  A JavaScript string is a sequence of UTF-16 code units, and \<^verbatim>\<open>text.length\<close> counts code
  units. The glyphs of \<^verbatim>\<open>showInvisibles\<close> and the separators U+2028 and U+2029 of
  \<^verbatim>\<open>LINE_ENDING_RE\<close> lie outside ASCII, so strings are lists of 16-bit words.
\<close>

type_synonym jsstring = "16 word list"

definition utf16 :: "string \<Rightarrow> jsstring" where
  \<comment> \<open>an ASCII literal as code units, to write examples\<close>
  "utf16 s = map (\<lambda>c. of_nat (of_char c)) s"

definition is_lead_surrogate :: "16 word \<Rightarrow> bool" where
  "is_lead_surrogate c \<longleftrightarrow> 0xD800 \<le> c \<and> c \<le> 0xDBFF"

definition is_trail_surrogate :: "16 word \<Rightarrow> bool" where
  "is_trail_surrogate c \<longleftrightarrow> 0xDC00 \<le> c \<and> c \<le> 0xDFFF"

text \<open>
  \<^verbatim>\<open>for (const element of str)\<close> runs the string iterator, which yields code points: a lead
  surrogate followed by a trail surrogate is one element of two code units, every other
  code unit (a lone surrogate too) is an element of its own.
\<close>

fun string_iterator :: "jsstring \<Rightarrow> jsstring list" where
  "string_iterator [] = []"
| "string_iterator [c] = [[c]]"
| "string_iterator (c # d # cs) =
     (if is_lead_surrogate c \<and> is_trail_surrogate d
      then [c, d] # string_iterator cs
      else [c] # string_iterator (d # cs))"

section \<open>helper.js: showInvisibles\<close>

definition showInvisibles_case :: "jsstring \<Rightarrow> jsstring" where
  \<comment> \<open>the \<^verbatim>\<open>switch (element)\<close>: what one iteration appends to \<^verbatim>\<open>ret\<close>\<close>
  "showInvisibles_case element =
     (if element = [0x20] then [0x00B7]
      else if element = [0x0A] then [0x23CE]
      else if element = [0x09] then [0x21B9]
      else if element = [0x0D] then [0x240D]
      else element)"

definition showInvisibles :: "jsstring \<Rightarrow> jsstring" where
  "showInvisibles str =
     fold (\<lambda>element ret. ret @ showInvisibles_case element) (string_iterator str) []"

text \<open>
  The substitution as the specification words it: one character in, one character out.
\<close>

definition visible_glyph :: "16 word \<Rightarrow> 16 word" where
  "visible_glyph c =
     (if c = 0x20 then 0x00B7
      else if c = 0x0A then 0x23CE
      else if c = 0x09 then 0x21B9
      else if c = 0x0D then 0x240D
      else c)"

section \<open>helper.js: generateDifferences\<close>

text \<open>
  The edit script comes from the \<^verbatim>\<open>fast-diff\<close> package: an array of pairs of an operation
  tag and a text. The tags \<^verbatim>\<open>diff.INSERT\<close>, \<^verbatim>\<open>diff.DELETE\<close> and \<^verbatim>\<open>diff.EQUAL\<close> are constants of
  that package; any other tag is kept as \<open>DIFF_OTHER\<close>, with its rendering in the message
  of the error it raises.
\<close>

datatype diff_op = DIFF_INSERT | DIFF_DELETE | DIFF_EQUAL | DIFF_OTHER jsstring

type_synonym diff_result = "diff_op \<times> jsstring"

text \<open>
  \<^verbatim>\<open>LINE_ENDING_RE = /\r\n|[\n\r\u2028\u2029]/\<close>. The expression has no \<^verbatim>\<open>g\<close> flag, so
  \<^verbatim>\<open>test\<close> keeps no state and searches the text for a position where a match starts.
\<close>

definition LINE_ENDING_RE_at :: "jsstring \<Rightarrow> bool" where
  "LINE_ENDING_RE_at text \<longleftrightarrow>
     take 2 text = [0x0D, 0x0A]
     \<or> (case text of [] \<Rightarrow> False
         | c # cs \<Rightarrow> c = 0x0A \<or> c = 0x0D \<or> c = 0x2028 \<or> c = 0x2029)"

fun LINE_ENDING_RE_test :: "jsstring \<Rightarrow> bool" where
  "LINE_ENDING_RE_test [] = False"
| "LINE_ENDING_RE_test (c # cs) = (LINE_ENDING_RE_at (c # cs) \<or> LINE_ENDING_RE_test cs)"

text \<open>
  The reported differences. \<^verbatim>\<open>generateDifferences.INSERT\<close>, \<^verbatim>\<open>.DELETE\<close> and \<^verbatim>\<open>.REPLACE\<close> are the
  strings 'insert', 'delete' and 'replace'; an insert has no \<^verbatim>\<open>deleteText\<close> and a delete no
  \<^verbatim>\<open>insertText\<close>.
\<close>

datatype operation = INSERT | DELETE | REPLACE

record difference =
  offset :: nat
  operation :: operation
  insertText :: "jsstring option"
  deleteText :: "jsstring option"

datatype error = Unexpected_fast_diff_operation jsstring

text \<open>
  The variables that the loop and the closure \<^verbatim>\<open>flush\<close> share: \<^verbatim>\<open>batch\<close>, \<^verbatim>\<open>offset\<close> and
  \<^verbatim>\<open>differences\<close>. The remaining \<^verbatim>\<open>results\<close> are the argument of the recursion.
\<close>

record vars =
  batch :: "diff_result list"
  offset_var :: nat
  differences :: "difference list"

text \<open>The \<^verbatim>\<open>while (batch.length > 0)\<close> of \<^verbatim>\<open>flush\<close>; its \<^verbatim>\<open>switch\<close> has no default case.\<close>

fun flush_while :: "diff_result list \<Rightarrow> jsstring \<times> jsstring \<Rightarrow> jsstring \<times> jsstring" where
  "flush_while [] (aheadDeleteText, aheadInsertText) = (aheadDeleteText, aheadInsertText)"
| "flush_while ((op, text) # rest) (aheadDeleteText, aheadInsertText) =
     flush_while rest
       (case op of
          DIFF_INSERT \<Rightarrow> (aheadDeleteText, aheadInsertText @ text)
        | DIFF_DELETE \<Rightarrow> (aheadDeleteText @ text, aheadInsertText)
        | DIFF_EQUAL \<Rightarrow> (aheadDeleteText @ text, aheadInsertText @ text)
        | DIFF_OTHER tag \<Rightarrow> (aheadDeleteText, aheadInsertText))"

definition flush :: "vars \<Rightarrow> vars" where
  "flush st =
     (case flush_while (batch st) ([], []) of
        (aheadDeleteText, aheadInsertText) \<Rightarrow>
          \<lparr>batch = [],
           offset_var = offset_var st + length aheadDeleteText,
           differences =
             (if aheadDeleteText \<noteq> [] \<and> aheadInsertText \<noteq> [] then
                differences st @
                  [\<lparr>offset = offset_var st, operation = REPLACE,
                    insertText = Some aheadInsertText, deleteText = Some aheadDeleteText\<rparr>]
              else if aheadDeleteText = [] \<and> aheadInsertText \<noteq> [] then
                differences st @
                  [\<lparr>offset = offset_var st, operation = INSERT,
                    insertText = Some aheadInsertText, deleteText = None\<rparr>]
              else if aheadDeleteText \<noteq> [] \<and> aheadInsertText = [] then
                differences st @
                  [\<lparr>offset = offset_var st, operation = DELETE,
                    insertText = None, deleteText = Some aheadDeleteText\<rparr>]
              else differences st)\<rparr>)"

text \<open>
  The \<^verbatim>\<open>switch (op)\<close> of the main loop, for the result just shifted off \<^verbatim>\<open>results\<close>; the
  second argument is what is left of \<^verbatim>\<open>results\<close>. The default case throws.
\<close>

fun switch_op :: "diff_result \<Rightarrow> diff_result list \<Rightarrow> vars \<Rightarrow> error + vars" where
  "switch_op (DIFF_INSERT, text) results st =
     Inr (st\<lparr>batch := batch st @ [(DIFF_INSERT, text)]\<rparr>)"
| "switch_op (DIFF_DELETE, text) results st =
     Inr (st\<lparr>batch := batch st @ [(DIFF_DELETE, text)]\<rparr>)"
| "switch_op (DIFF_EQUAL, text) results st =
     Inr (if results \<noteq> [] then
            if batch st \<noteq> [] then
              if LINE_ENDING_RE_test text then
                (let st' = flush st in st'\<lparr>offset_var := offset_var st' + length text\<rparr>)
              else st\<lparr>batch := batch st @ [(DIFF_EQUAL, text)]\<rparr>
            else st\<lparr>offset_var := offset_var st + length text\<rparr>
          else st)"
| "switch_op (DIFF_OTHER tag, text) results st = Inl (Unexpected_fast_diff_operation tag)"

text \<open>The \<^verbatim>\<open>while (results.length > 0)\<close>, with the flush of the last iteration.\<close>

fun while_results :: "diff_result list \<Rightarrow> vars \<Rightarrow> error + vars" where
  "while_results [] st = Inr st"
| "while_results (result # results) st =
     (case switch_op result results st of
        Inl e \<Rightarrow> Inl e
      | Inr st' \<Rightarrow>
          while_results results
            (if batch st' \<noteq> [] \<and> results = [] then flush st' else st'))"

definition coalesce :: "diff_result list \<Rightarrow> error + difference list" where
  \<comment> \<open>the body of \<^verbatim>\<open>generateDifferences\<close> after the call of \<^verbatim>\<open>diff\<close>\<close>
  "coalesce results =
     (case while_results results \<lparr>batch = [], offset_var = 0, differences = []\<rparr> of
        Inl e \<Rightarrow> Inl e
      | Inr st \<Rightarrow> Inr (differences st))"

definition generateDifferences ::
  "(jsstring \<Rightarrow> jsstring \<Rightarrow> diff_result list) \<Rightarrow> jsstring \<Rightarrow> jsstring \<Rightarrow> error + difference list" where
  \<comment> \<open>\<^verbatim>\<open>diff\<close> is the imported package, a parameter here\<close>
  "generateDifferences diff source oxlintSource = coalesce (diff source oxlintSource)"

subsection \<open>The specification's reading of an edit script and of a patch\<close>

text \<open>
  The old side of a script is the concatenation of its Equal and Delete texts, the new side
  that of its Equal and Insert texts; a well-formed script has the three defined kinds only.
\<close>

fun old_side :: "diff_result list \<Rightarrow> jsstring" where
  "old_side [] = []"
| "old_side ((op, text) # rs) =
     (if op = DIFF_EQUAL \<or> op = DIFF_DELETE then text @ old_side rs else old_side rs)"

fun new_side :: "diff_result list \<Rightarrow> jsstring" where
  "new_side [] = []"
| "new_side ((op, text) # rs) =
     (if op = DIFF_EQUAL \<or> op = DIFF_INSERT then text @ new_side rs else new_side rs)"

definition defined_kind :: "diff_result \<Rightarrow> bool" where
  "defined_kind r \<longleftrightarrow> fst r = DIFF_INSERT \<or> fst r = DIFF_DELETE \<or> fst r = DIFF_EQUAL"

definition deleted :: "difference \<Rightarrow> jsstring" where
  \<comment> \<open>a missing \<^verbatim>\<open>deleteText\<close> deletes nothing\<close>
  "deleted d = (case deleteText d of None \<Rightarrow> [] | Some text \<Rightarrow> text)"

definition inserted :: "difference \<Rightarrow> jsstring" where
  "inserted d = (case insertText d of None \<Rightarrow> [] | Some text \<Rightarrow> text)"

text \<open>
  Applying the differences as patches to the original source, in order: each one replaces
  \<open>deleted d\<close>, which must be the text of the source at \<open>offset d\<close>, by \<open>inserted d\<close>. The
  first argument is the position in the source up to which the patches already applied have
  consumed it; a patch that starts before that position, runs past the end of the source or
  does not find its \<open>deleteText\<close> there is refused (\<open>None\<close>).
\<close>

fun apply_from :: "nat \<Rightarrow> jsstring \<Rightarrow> difference list \<Rightarrow> jsstring option" where
  "apply_from pos source [] = Some (drop pos source)"
| "apply_from pos source (d # ds) =
     (if pos \<le> offset d \<and> offset d + length (deleted d) \<le> length source
         \<and> take (length (deleted d)) (drop (offset d) source) = deleted d
      then (case apply_from (offset d + length (deleted d)) source ds of
              None \<Rightarrow> None
            | Some tail \<Rightarrow> Some (take (offset d - pos) (drop pos source) @ inserted d @ tail))
      else None)"

definition apply_differences :: "jsstring \<Rightarrow> difference list \<Rightarrow> jsstring option" where
  "apply_differences source ds = apply_from 0 source ds"

subsection \<open>Vocabulary of the proofs\<close>

text \<open>
  What one flush appends to \<^verbatim>\<open>differences\<close>, given the offset and the two accumulated texts.
\<close>

definition emitted :: "nat \<Rightarrow> jsstring \<Rightarrow> jsstring \<Rightarrow> difference list" where
  "emitted off del ins =
     (if del \<noteq> [] \<and> ins \<noteq> [] then
        [\<lparr>offset = off, operation = REPLACE, insertText = Some ins, deleteText = Some del\<rparr>]
      else if del = [] \<and> ins \<noteq> [] then
        [\<lparr>offset = off, operation = INSERT, insertText = Some ins, deleteText = None\<rparr>]
      else if del \<noteq> [] \<and> ins = [] then
        [\<lparr>offset = off, operation = DELETE, insertText = None, deleteText = Some del\<rparr>]
      else [])"

text \<open>
  The differences start at or after a position, and each later one starts strictly after
  the end of the text the one before it deletes.
\<close>

fun ascending_from :: "nat \<Rightarrow> difference list \<Rightarrow> bool" where
  "ascending_from lo [] = True"
| "ascending_from lo (d # ds) =
     (lo \<le> offset d \<and> ascending_from (Suc (offset d + length (deleted d))) ds)"

text \<open>
  A list of differences accounts for the part of a script that turns \<open>old\<close> into \<open>new\<close>
  from position \<open>off\<close> of the source on: it is ascending from there, stays inside that part
  of the source, and patches every source that continues with \<open>old\<close> at \<open>off\<close> into \<open>new\<close>.
\<close>

definition accounts_for :: "nat \<Rightarrow> jsstring \<Rightarrow> jsstring \<Rightarrow> difference list \<Rightarrow> bool" where
  "accounts_for off old new ds \<longleftrightarrow>
     ascending_from off ds
     \<and> (\<forall>d \<in> set ds. offset d + length (deleted d) \<le> off + length old)
     \<and> (\<forall>source. off \<le> length source \<and> drop off source = old
            \<longrightarrow> apply_from off source ds = Some new)"

text \<open>
  The operations that are appended to a non-empty batch when another operation follows
  them: every Insert and Delete, and an Equal without a line ending.
\<close>

definition joins_batch :: "diff_result \<Rightarrow> bool" where
  "joins_batch r \<longleftrightarrow>
     fst r = DIFF_INSERT \<or> fst r = DIFF_DELETE
     \<or> (fst r = DIFF_EQUAL \<and> \<not> LINE_ENDING_RE_test (snd r))"

section \<open>oxlint.js: mergeConfigs\<close>

text \<open>
  Configuration values are what \<^verbatim>\<open>JSON.parse\<close> and the rule options deliver, and \<^verbatim>\<open>undefined\<close>
  for an absent argument or property. An object is its prototype and the list of its own
  enumerable properties, in the order in which \<^verbatim>\<open>Object.keys\<close> lists them; a new property
  is put last (JavaScript sorts keys that are array indices to the front, which no
  statement below depends on). The objects that \<^verbatim>\<open>JSON.parse\<close> and an object literal create
  have the prototype \<^verbatim>\<open>Object.prototype\<close>, which is a value of its own here, since
  \<^verbatim>\<open>result['__proto__']\<close> reads it and \<^verbatim>\<open>result['__proto__'] = v\<close> replaces it.
\<close>

datatype jsvalue =
    Undefined
  | Null
  | Bool bool
  | Num real
  | Str jsstring
  | Arr "jsvalue list"
  | Obj jsvalue "(jsstring \<times> jsvalue) list"
  | Object_prototype

type_synonym props = "(jsstring \<times> jsvalue) list"

fun truthy :: "jsvalue \<Rightarrow> bool" where
  "truthy Undefined = False"
| "truthy Null = False"
| "truthy (Bool b) = b"
| "truthy (Num n) = (n \<noteq> 0)"
| "truthy (Str s) = (s \<noteq> [])"
| "truthy (Arr xs) = True"
| "truthy (Obj p kvs) = True"
| "truthy Object_prototype = True"

datatype js_type = T_undefined | T_object | T_boolean | T_number | T_string

fun typeof :: "jsvalue \<Rightarrow> js_type" where
  "typeof Undefined = T_undefined"
| "typeof Null = T_object"
| "typeof (Bool b) = T_boolean"
| "typeof (Num n) = T_number"
| "typeof (Str s) = T_string"
| "typeof (Arr xs) = T_object"
| "typeof (Obj p kvs) = T_object"
| "typeof Object_prototype = T_object"

fun Array_isArray :: "jsvalue \<Rightarrow> bool" where
  "Array_isArray (Arr xs) = True"
| "Array_isArray v = False"

text \<open>An array index as a property key: its decimal digits.\<close>

fun decimal :: "nat \<Rightarrow> jsstring" where
  "decimal n =
     (if n < 10 then [of_nat (48 + n)]
      else decimal (n div 10) @ [of_nat (48 + n mod 10)])"

declare decimal.simps [simp del]

text \<open>
  The own enumerable properties of a value, which \<^verbatim>\<open>{ ...base }\<close> copies and \<^verbatim>\<open>Object.keys\<close>
  lists: those of an object, the elements of an array and the code units of a string under
  their indices, none for a number or a boolean, and none for \<^verbatim>\<open>Object.prototype\<close>, whose
  properties are not enumerable.
\<close>

fun own_props :: "jsvalue \<Rightarrow> props" where
  "own_props (Obj p kvs) = kvs"
| "own_props (Arr xs) = zip (map decimal [0..<length xs]) xs"
| "own_props (Str s) = zip (map decimal [0..<length s]) (map (\<lambda>c. Str [c]) s)"
| "own_props v = []"

definition Object_keys :: "jsvalue \<Rightarrow> jsstring list" where
  "Object_keys v = map fst (own_props v)"

definition own_value :: "props \<Rightarrow> jsstring \<Rightarrow> jsvalue" where
  \<comment> \<open>\<^verbatim>\<open>override[key]\<close> for a key of \<^verbatim>\<open>Object.keys(override)\<close>: the value of that own property\<close>
  "own_value kvs key = (case map_of kvs key of None \<Rightarrow> Undefined | Some v \<Rightarrow> v)"

definition proto_key :: jsstring where
  "proto_key = utf16 ''__proto__''"

text \<open>
  Reading a property walks the prototype chain. \<open>get_from rp obj key\<close> is the search for
  \<open>key\<close> from the object \<open>obj\<close> of the chain on, for a receiver whose prototype is \<open>rp\<close>:
  an own property of \<open>obj\<close> is the answer; at \<^verbatim>\<open>Object.prototype\<close> the key \<^verbatim>\<open>__proto__\<close> is an
  accessor whose getter returns the prototype of the receiver; a \<^verbatim>\<open>null\<close> prototype ends
  the chain. The other members that an object or an array inherits (the methods of
  \<^verbatim>\<open>Object.prototype\<close> and \<^verbatim>\<open>Array.prototype\<close>, the \<^verbatim>\<open>length\<close> of an array) are functions and
  a number; the only use of the value read is the test \<^verbatim>\<open>typeof valA === 'object'\<close>, which
  they fail as \<^verbatim>\<open>undefined\<close> does, and they are read as \<open>Undefined\<close>.
\<close>

fun get_from :: "jsvalue \<Rightarrow> jsvalue \<Rightarrow> jsstring \<Rightarrow> jsvalue" where
  "get_from rp (Obj p kvs) key =
     (case map_of kvs key of Some v \<Rightarrow> v | None \<Rightarrow> get_from rp p key)"
| "get_from rp (Arr xs) key =
     (case map_of (own_props (Arr xs)) key of
        Some v \<Rightarrow> v
      | None \<Rightarrow> if key = proto_key then rp else Undefined)"
| "get_from rp Object_prototype key = (if key = proto_key then rp else Undefined)"
| "get_from rp v key = Undefined"

fun get_prop :: "jsvalue \<Rightarrow> jsstring \<Rightarrow> jsvalue" where
  \<comment> \<open>\<^verbatim>\<open>result[key]\<close>; \<^verbatim>\<open>result\<close> is always an object made by the spread\<close>
  "get_prop (Obj p kvs) key = get_from p (Obj p kvs) key"
| "get_prop v key = Undefined"

text \<open>
  Whether the chain from an object on reaches the accessor \<^verbatim>\<open>__proto__\<close> of
  \<^verbatim>\<open>Object.prototype\<close> before a data property of that name.
\<close>

fun has_proto_accessor :: "jsvalue \<Rightarrow> bool" where
  "has_proto_accessor (Obj p kvs) = (proto_key \<notin> fst ` set kvs \<and> has_proto_accessor p)"
| "has_proto_accessor (Arr xs) = (proto_key \<notin> fst ` set (own_props (Arr xs)))"
| "has_proto_accessor Object_prototype = True"
| "has_proto_accessor v = False"

fun put_own :: "props \<Rightarrow> jsstring \<Rightarrow> jsvalue \<Rightarrow> props" where
  \<comment> \<open>an existing own property keeps its place, a new one goes last\<close>
  "put_own [] key v = [(key, v)]"
| "put_own ((k, w) # kvs) key v =
     (if k = key then (k, v) # kvs else (k, w) # put_own kvs key v)"

text \<open>
  \<^verbatim>\<open>result[key] = v\<close>. An own property is overwritten. Otherwise the key \<^verbatim>\<open>__proto__\<close>, when
  the accessor is inherited, runs its setter: an object or \<^verbatim>\<open>null\<close> becomes the prototype of
  \<^verbatim>\<open>result\<close>, any other value is dropped, and no own property is created. Every other key
  becomes a new own property.
\<close>

fun set_prop :: "jsvalue \<Rightarrow> jsstring \<Rightarrow> jsvalue \<Rightarrow> jsvalue" where
  "set_prop (Obj p kvs) key v =
     (if key \<in> fst ` set kvs then Obj p (put_own kvs key v)
      else if key = proto_key \<and> has_proto_accessor p then
        (if typeof v = T_object then Obj v kvs else Obj p kvs)
      else Obj p (put_own kvs key v))"
| "set_prop obj key v = obj"

definition is_plain_object :: "jsvalue \<Rightarrow> bool" where
  \<comment> \<open>\<^verbatim>\<open>typeof v === 'object' && v !== null && !Array.isArray(v)\<close>\<close>
  "is_plain_object v \<longleftrightarrow> typeof v = T_object \<and> v \<noteq> Null \<and> \<not> Array_isArray v"

function mergeConfigs :: "jsvalue \<Rightarrow> jsvalue \<Rightarrow> jsvalue" where
  "mergeConfigs base override =
     (if \<not> truthy base then (if truthy override then override else Obj Object_prototype [])
      else if \<not> truthy override then (if truthy base then base else Obj Object_prototype [])
      else fold (\<lambda>key result.
              let valA = get_prop result key;
                  valB = own_value (own_props override) key
              in if is_plain_object valA \<and> is_plain_object valB
                 then set_prop result key (mergeConfigs valA valB)
                 else set_prop result key valB)
            (Object_keys override) (Obj Object_prototype (own_props base)))"
  by pat_completeness auto
termination
proof (relation "measure (\<lambda>(base, override). size override)")
  show "wf (measure (\<lambda>(base, override). size override))"
    by simp
next
  fix base override result valA valB :: jsvalue and key :: jsstring
  assume key: "key \<in> set (Object_keys override)"
    and valB: "valB = own_value (own_props override) key"
    and plain: "is_plain_object valA \<and> is_plain_object valB"
  have entry: "(key, valB) \<in> set (own_props override)"
  proof -
    from key obtain v where "map_of (own_props override) key = Some v"
      by (auto simp: Object_keys_def dest: weak_map_of_SomeI)
    with valB show ?thesis
      by (auto simp: own_value_def dest: map_of_SomeD)
  qed
  have "size valB < size override"
  proof (cases override)
    case (Obj p kvs)
    have "(k, v) \<in> set ps \<Longrightarrow> size v < Suc (size_list (size_prod (\<lambda>_. 0) size) ps)"
      for k :: jsstring and v :: jsvalue and ps :: props
      by (induction ps) auto
    with entry Obj show ?thesis
      by fastforce
  next
    case (Arr xs)
    with entry have "valB \<in> set xs"
      by (auto dest: set_zip_rightD)
    then have "size valB < Suc (size_list size xs)"
      by (induction xs) auto
    with Arr show ?thesis
      by simp
  next
    case (Str s)
    with entry obtain c where "valB = Str [c]"
      by (auto dest!: set_zip_rightD)
    with plain show ?thesis
      by (simp add: is_plain_object_def)
  qed (use entry in simp_all)
  then show "((valA, valB), base, override) \<in> measure (\<lambda>(base, override). size override)"
    by simp
qed

declare mergeConfigs.simps [simp del]

text \<open>
  A value is an ordinary tree when every object at and below it, under property keys, has
  the prototype \<^verbatim>\<open>Object.prototype\<close>. The configuration values of the specification (null,
  booleans, numbers, strings, arrays and objects, as \<^verbatim>\<open>JSON.parse\<close> and literals make them)
  are ordinary trees; an object whose prototype has been replaced, and \<^verbatim>\<open>Object.prototype\<close>
  itself, are values that the merge can return or read, not configuration values.
\<close>

fun ordinary_tree :: "jsvalue \<Rightarrow> bool" where
  "ordinary_tree (Obj p kvs) = (p = Object_prototype \<and> (\<forall>kv \<in> set kvs. ordinary_tree (snd kv)))"
| "ordinary_tree Object_prototype = False"
| "ordinary_tree v = True"

text \<open>
  The body of the \<^verbatim>\<open>for\<close> loop by name, for the proofs: the value a key receives, and the
  assignment to \<^verbatim>\<open>result[key]\<close>.
\<close>

definition merged_value :: "jsvalue \<Rightarrow> jsvalue \<Rightarrow> jsvalue" where
  "merged_value valA valB =
     (if is_plain_object valA \<and> is_plain_object valB then mergeConfigs valA valB else valB)"

definition merge_key :: "jsvalue \<Rightarrow> jsstring \<Rightarrow> jsvalue \<Rightarrow> jsvalue" where
  "merge_key override key result =
     set_prop result key (merged_value (get_prop result key) (own_value (own_props override) key))"

section \<open>Properties of showInvisibles\<close>

lemma fold_append_acc:
  "fold (\<lambda>x acc. acc @ f x) xs acc0 = acc0 @ concat (map f xs)"
  by (induction xs arbitrary: acc0) simp_all

lemma showInvisibles_concat:
  "showInvisibles str = concat (map showInvisibles_case (string_iterator str))"
  by (simp add: showInvisibles_def fold_append_acc)

lemma showInvisibles_case_single:
  "showInvisibles_case [c] = [visible_glyph c]"
  by (simp add: showInvisibles_case_def visible_glyph_def)

lemma showInvisibles_case_pair:
  "showInvisibles_case [c, d] = [c, d]"
  by (simp add: showInvisibles_case_def)

lemma surrogate_not_substituted:
  "is_lead_surrogate c \<or> is_trail_surrogate c \<Longrightarrow> visible_glyph c = c"
  by (auto simp: is_lead_surrogate_def is_trail_surrogate_def visible_glyph_def)

lemma visible_glyph_lead [simp]:
  "is_lead_surrogate (visible_glyph c) = is_lead_surrogate c"
  by (simp add: is_lead_surrogate_def visible_glyph_def)

lemma visible_glyph_trail [simp]:
  "is_trail_surrogate (visible_glyph c) = is_trail_surrogate c"
  by (simp add: is_trail_surrogate_def visible_glyph_def)

lemma concat_cases_eq_map:
  "concat (map showInvisibles_case (string_iterator str)) = map visible_glyph str"
proof (induction str rule: string_iterator.induct)
  case 1
  show ?case by simp
next
  case (2 c)
  show ?case by (simp add: showInvisibles_case_single)
next
  case (3 c d cs)
  show ?case
  proof (cases "is_lead_surrogate c \<and> is_trail_surrogate d")
    case True
    then have "visible_glyph c = c" "visible_glyph d = d"
      by (simp_all add: surrogate_not_substituted)
    with True 3 show ?thesis
      by (simp add: showInvisibles_case_pair)
  next
    case False
    with 3 show ?thesis
      by (auto simp: showInvisibles_case_single)
  qed
qed

lemma string_iterator_map_glyph:
  "string_iterator (map visible_glyph str) = map (map visible_glyph) (string_iterator str)"
  by (induction str rule: string_iterator.induct) simp_all

text \<open>
  C9. For every string, showInvisibles returns the string in which each space, newline, tab
  and carriage return is replaced by its glyph (U+00B7, U+23CE, U+21B9, U+240D) and every
  other code unit is kept: the result is the code-unit-wise image of the input under the
  four-character substitution, a code unit outside the four is its own image, and the
  result has as many code units and as many code points as the input.
\<close>

theorem showInvisibles_substitution:
  "showInvisibles str = map visible_glyph str
   \<and> length (showInvisibles str) = length str
   \<and> length (string_iterator (showInvisibles str)) = length (string_iterator str)
   \<and> visible_glyph 0x20 = 0x00B7 \<and> visible_glyph 0x0A = 0x23CE
   \<and> visible_glyph 0x09 = 0x21B9 \<and> visible_glyph 0x0D = 0x240D
   \<and> (c = 0x20 \<or> c = 0x0A \<or> c = 0x09 \<or> c = 0x0D \<or> visible_glyph c = c)"
proof -
  have eq: "showInvisibles str = map visible_glyph str"
    by (simp add: showInvisibles_concat concat_cases_eq_map)
  have "length (string_iterator (showInvisibles str)) = length (string_iterator str)"
    by (simp add: eq string_iterator_map_glyph)
  moreover have "c = 0x20 \<or> c = 0x0A \<or> c = 0x09 \<or> c = 0x0D \<or> visible_glyph c = c"
    by (simp add: visible_glyph_def)
  moreover have "visible_glyph 0x20 = 0x00B7" "visible_glyph 0x0A = 0x23CE"
    "visible_glyph 0x09 = 0x21B9" "visible_glyph 0x0D = 0x240D"
    by (simp_all add: visible_glyph_def)
  ultimately show ?thesis
    using eq by simp
qed

section \<open>Properties of generateDifferences\<close>

subsection \<open>The flush and the loop, case by case\<close>

lemma flush_while_sides:
  "flush_while b (del, ins) = (del @ old_side b, ins @ new_side b)"
  by (induction b arbitrary: del ins) (auto split: diff_op.splits)

lemma flush_emitted:
  "flush st =
     \<lparr>batch = [], offset_var = offset_var st + length (old_side (batch st)),
      differences = differences st
        @ emitted (offset_var st) (old_side (batch st)) (new_side (batch st))\<rparr>"
  by (simp add: flush_def flush_while_sides emitted_def)

lemma old_side_append [simp]: "old_side (xs @ ys) = old_side xs @ old_side ys"
  by (induction xs) auto

lemma new_side_append [simp]: "new_side (xs @ ys) = new_side xs @ new_side ys"
  by (induction xs) auto

lemma LINE_ENDING_RE_test_nonempty: "LINE_ENDING_RE_test text \<Longrightarrow> text \<noteq> []"
  by auto

subsection \<open>Patches\<close>

lemma ascending_from_mono: "ascending_from lo ds \<Longrightarrow> lo' \<le> lo \<Longrightarrow> ascending_from lo' ds"
  by (cases ds) auto

lemma apply_from_shift:
  assumes "apply_from pos' source ds = Some tail" and "pos \<le> pos'"
  shows "apply_from pos source ds = Some (take (pos' - pos) (drop pos source) @ tail)"
proof (cases ds)
  case Nil
  have "take (pos' - pos) (drop pos source) @ drop (pos' - pos) (drop pos source)
          = drop pos source"
    by (rule append_take_drop_id)
  moreover have "drop (pos' - pos) (drop pos source) = drop pos' source"
    using assms(2) by simp
  ultimately show ?thesis
    using assms(1) Nil by simp
next
  case (Cons d ds')
  from assms(1) Cons have le: "pos' \<le> offset d"
    by (simp split: if_splits)
  have "take ((pos' - pos) + (offset d - pos')) (drop pos source)
          = take (pos' - pos) (drop pos source)
            @ take (offset d - pos') (drop (pos' - pos) (drop pos source))"
    by (rule take_add)
  moreover have "(pos' - pos) + (offset d - pos') = offset d - pos"
    using le assms(2) by simp
  moreover have "drop (pos' - pos) (drop pos source) = drop pos' source"
    using assms(2) by simp
  ultimately have split: "take (offset d - pos) (drop pos source)
      = take (pos' - pos) (drop pos source) @ take (offset d - pos') (drop pos' source)"
    by simp
  from assms Cons le show ?thesis
    by (auto simp: split split: if_splits option.splits)
qed

lemma emitted_cases:
  "emitted off del ins = [] \<and> del = [] \<and> ins = []
   \<or> (\<exists>d. emitted off del ins = [d] \<and> offset d = off \<and> deleted d = del \<and> inserted d = ins)"
  by (auto simp: emitted_def deleted_def inserted_def)

lemma apply_from_emitted:
  assumes "off + length del \<le> length source"
    and "take (length del) (drop off source) = del"
    and "apply_from (off + length del) source rest = Some tail"
  shows "apply_from off source (emitted off del ins @ rest) = Some (ins @ tail)"
  using emitted_cases [of off del ins] assms by auto

lemma accounts_for_nil: "accounts_for off old old []"
  by (simp add: accounts_for_def)

lemma accounts_for_skip:
  assumes "accounts_for (off + length text) old new ds"
  shows "accounts_for off (text @ old) (text @ new) ds"
  unfolding accounts_for_def
proof (intro conjI ballI allI impI)
  show "ascending_from off ds"
    using assms by (auto simp: accounts_for_def intro: ascending_from_mono)
next
  fix d assume "d \<in> set ds"
  with assms show "offset d + length (deleted d) \<le> off + length (text @ old)"
    by (fastforce simp: accounts_for_def)
next
  fix source assume src: "off \<le> length source \<and> drop off source = text @ old"
  then have "length source - off = length text + length old"
    by (metis length_drop length_append)
  moreover from src have "off \<le> length source"
    by simp
  ultimately have len: "off + length text \<le> length source"
    by arith
  have "drop (off + length text) source = drop (length text) (drop off source)"
    by (simp add: add.commute)
  with src have "drop (off + length text) source = old"
    by simp
  with assms len have "apply_from (off + length text) source ds = Some new"
    by (simp add: accounts_for_def)
  from apply_from_shift [OF this, of off] src
  show "apply_from off source ds = Some (text @ new)"
    by simp
qed

lemma accounts_for_emitted_then:
  assumes rest: "accounts_for (off + length del + length text) old new ds"
    and gap: "text \<noteq> [] \<or> ds = []"
  shows "accounts_for off (del @ text @ old) (ins @ text @ new) (emitted off del ins @ ds)"
  unfolding accounts_for_def
proof (intro conjI ballI allI impI)
  from rest have asc: "ascending_from (off + length del + length text) ds"
    by (simp add: accounts_for_def)
  from gap have "ascending_from (Suc (off + length del)) ds"
  proof
    assume "text \<noteq> []"
    then have "Suc (off + length del) \<le> off + length del + length text"
      by (cases "text") simp_all
    with asc show ?thesis
      by (rule ascending_from_mono)
  qed simp
  moreover have "ascending_from off ds"
    using asc by (rule ascending_from_mono) simp
  ultimately show "ascending_from off (emitted off del ins @ ds)"
    using emitted_cases [of off del ins] by auto
next
  fix d assume "d \<in> set (emitted off del ins @ ds)"
  with rest emitted_cases [of off del ins]
  show "offset d + length (deleted d) \<le> off + length (del @ text @ old)"
    by (fastforce simp: accounts_for_def)
next
  fix source assume src: "off \<le> length source \<and> drop off source = del @ text @ old"
  then have "length source - off = length del + length (text @ old)"
    by (metis length_drop length_append)
  moreover from src have "off \<le> length source"
    by simp
  ultimately have len: "off + length del \<le> length source"
    by arith
  have "drop (off + length del) source = drop (length del) (drop off source)"
    by (simp add: add.commute)
  with src have tail: "drop (off + length del) source = text @ old"
    by simp
  from rest have "accounts_for (off + length del) (text @ old) (text @ new) ds"
    by (rule accounts_for_skip)
  with len tail have "apply_from (off + length del) source ds = Some (text @ new)"
    by (simp add: accounts_for_def)
  moreover from src have "take (length del) (drop off source) = del"
    by simp
  ultimately show "apply_from off source (emitted off del ins @ ds) = Some (ins @ text @ new)"
    using len by (simp add: apply_from_emitted)
qed

lemma accounts_for_emitted:
  "accounts_for off (del @ rest) (ins @ rest) (emitted off del ins)"
  using accounts_for_emitted_then [of off del "[]" rest rest "[]" ins]
  by (simp add: accounts_for_nil)

lemma defined_kind_cases:
  assumes "defined_kind r"
  obtains t where "r = (DIFF_INSERT, t)" | t where "r = (DIFF_DELETE, t)"
    | t where "r = (DIFF_EQUAL, t)"
  using assms by (cases r) (auto simp: defined_kind_def)

lemma while_results_last:
  assumes "defined_kind r"
  shows "\<exists>st' new. while_results [r] st = Inr st'
           \<and> differences st' = differences st @ new
           \<and> accounts_for (offset_var st) (old_side (batch st) @ old_side [r])
                (new_side (batch st) @ new_side [r]) new"
  using assms
proof (cases r rule: defined_kind_cases)
  case (1 t)
  then show ?thesis
    using accounts_for_emitted [of "offset_var st" "old_side (batch st)" "[]"
        "new_side (batch st) @ t"]
    by (simp add: flush_emitted)
next
  case (2 t)
  then show ?thesis
    using accounts_for_emitted [of "offset_var st" "old_side (batch st) @ t" "[]"
        "new_side (batch st)"]
    by (simp add: flush_emitted)
next
  case (3 t)
  show ?thesis
  proof (cases "batch st = []")
    case True
    with 3 show ?thesis
      using accounts_for_nil [of "offset_var st" t] by simp
  next
    case False
    with 3 show ?thesis
      using accounts_for_emitted [of "offset_var st" "old_side (batch st)" t
          "new_side (batch st)"]
      by (simp add: flush_emitted)
  qed
qed

lemma while_results_accounts:
  assumes "rs \<noteq> []" and "list_all defined_kind rs"
  shows "\<exists>st' new. while_results rs st = Inr st'
           \<and> differences st' = differences st @ new
           \<and> accounts_for (offset_var st) (old_side (batch st) @ old_side rs)
                (new_side (batch st) @ new_side rs) new"
  using assms
proof (induction rs arbitrary: st rule: list_nonempty_induct)
  case (single r)
  then show ?case
    using while_results_last [of r st] by simp
next
  case (cons r rs)
  from cons.prems have r: "defined_kind r" and rs: "list_all defined_kind rs"
    by simp_all
  note IH = cons.IH [OF rs]
  from r show ?case
  proof (cases r rule: defined_kind_cases)
    case (1 t)
    with cons.hyps IH [of "st\<lparr>batch := batch st @ [(DIFF_INSERT, t)]\<rparr>"] show ?thesis
      by simp
  next
    case (2 t)
    with cons.hyps IH [of "st\<lparr>batch := batch st @ [(DIFF_DELETE, t)]\<rparr>"] show ?thesis
      by simp
  next
    case (3 t)
    show ?thesis
    proof (cases "batch st = []")
      case True
      from IH [of "st\<lparr>offset_var := offset_var st + length t\<rparr>"]
      obtain st' new where "while_results rs (st\<lparr>offset_var := offset_var st + length t\<rparr>) = Inr st'"
        and "differences st' = differences st @ new"
        and "accounts_for (offset_var st + length t) (old_side rs) (new_side rs) new"
        using True by auto
      with True 3 cons.hyps accounts_for_skip [of "offset_var st" t "old_side rs" "new_side rs" new]
      show ?thesis
        by simp
    next
      case False
      show ?thesis
      proof (cases "LINE_ENDING_RE_test t")
        case True
        let ?del = "old_side (batch st)" and ?ins = "new_side (batch st)"
        let ?st = "(flush st)\<lparr>offset_var := offset_var (flush st) + length t\<rparr>"
        from IH [of ?st]
        obtain st' new where run: "while_results rs ?st = Inr st'"
          and diffs: "differences st' = differences st @ emitted (offset_var st) ?del ?ins @ new"
          and acc: "accounts_for (offset_var st + length ?del + length t)
                      (old_side rs) (new_side rs) new"
          by (auto simp: flush_emitted)
        from True have "t \<noteq> []"
          by (rule LINE_ENDING_RE_test_nonempty)
        with acc have "accounts_for (offset_var st) (?del @ t @ old_side rs)
            (?ins @ t @ new_side rs) (emitted (offset_var st) ?del ?ins @ new)"
          by (simp add: accounts_for_emitted_then)
        with run diffs True False 3 cons.hyps show ?thesis
          by (simp add: Let_def flush_emitted)
      next
        case no_line_ending: False
        with False 3 cons.hyps IH [of "st\<lparr>batch := batch st @ [(DIFF_EQUAL, t)]\<rparr>"]
        show ?thesis
          by simp
      qed
    qed
  qed
qed

lemma coalesce_accounts:
  assumes "list_all defined_kind results"
  shows "\<exists>ds. coalesce results = Inr ds
           \<and> accounts_for 0 (old_side results) (new_side results) ds"
proof (cases "results = []")
  case True
  then show ?thesis
    by (simp add: coalesce_def accounts_for_nil)
next
  case False
  from while_results_accounts [OF False assms,
      of "\<lparr>batch = [], offset_var = 0, differences = []\<rparr>"]
  show ?thesis
    by (auto simp: coalesce_def)
qed

subsection \<open>Scripts with an unrecognized operation\<close>

lemma while_results_continues:
  assumes "defined_kind r" and "rest \<noteq> []"
  shows "\<exists>st'. while_results (r # rest) st = while_results rest st'"
  using assms(1)
proof (cases r rule: defined_kind_cases)
  case (3 t)
  with assms(2) show ?thesis
    by (cases "switch_op (DIFF_EQUAL, t) rest st") auto
qed (use assms(2) in auto)

lemma while_results_unrecognized:
  "list_all defined_kind pre
   \<Longrightarrow> while_results (pre @ (DIFF_OTHER tag, t) # post) st
        = Inl (Unexpected_fast_diff_operation tag)"
proof (induction pre arbitrary: st)
  case Nil
  show ?case by simp
next
  case (Cons r pre)
  then have "defined_kind r" and rest: "list_all defined_kind pre"
    by simp_all
  then obtain st' where
    "while_results (r # (pre @ (DIFF_OTHER tag, t) # post)) st
       = while_results (pre @ (DIFF_OTHER tag, t) # post) st'"
    using while_results_continues [of r "pre @ (DIFF_OTHER tag, t) # post" st] by auto
  with Cons.IH [OF rest, of st'] show ?case
    by simp
qed

lemma first_unrecognized:
  assumes "\<not> list_all defined_kind results"
  shows "\<exists>pre tag t post. results = pre @ (DIFF_OTHER tag, t) # post \<and> list_all defined_kind pre"
proof -
  from assms have "\<exists>r \<in> set results. \<not> defined_kind r"
    by (simp add: list_all_iff)
  from split_list_first_prop [OF this]
  obtain pre r post where split: "results = pre @ r # post" and bad: "\<not> defined_kind r"
    and before: "\<forall>p \<in> set pre. defined_kind p"
    by auto
  from bad obtain tag t where "r = (DIFF_OTHER tag, t)"
    by (cases r; cases "fst r") (auto simp: defined_kind_def)
  with split before show ?thesis
    by (auto simp: list_all_iff)
qed

lemma coalesce_unrecognized:
  "list_all defined_kind pre
   \<Longrightarrow> coalesce (pre @ (DIFF_OTHER tag, t) # post) = Inl (Unexpected_fast_diff_operation tag)"
  by (simp add: coalesce_def while_results_unrecognized)

lemma coalesce_Inr_defined:
  assumes "coalesce results = Inr ds"
  shows "list_all defined_kind results"
proof (rule ccontr)
  assume "\<not> list_all defined_kind results"
  from first_unrecognized [OF this] assms show False
    by (auto simp: coalesce_unrecognized)
qed

subsection \<open>Ordering of the differences\<close>

lemma ascending_from_nth:
  "ascending_from lo ds \<Longrightarrow> Suc i < length ds
   \<Longrightarrow> offset (ds ! i) + length (deleted (ds ! i)) < offset (ds ! Suc i)"
proof (induction ds arbitrary: lo i)
  case Nil
  then show ?case by simp
next
  case (Cons d ds)
  show ?case
  proof (cases i)
    case 0
    with Cons.prems show ?thesis
      by (cases ds) auto
  next
    case (Suc j)
    with Cons.prems Cons.IH [of "Suc (offset d + length (deleted d))" j] show ?thesis
      by simp
  qed
qed

subsection \<open>Scripts of Equal operations\<close>

lemma while_results_all_equal:
  "list_all (\<lambda>r. fst r = DIFF_EQUAL) rs \<Longrightarrow> batch st = []
   \<Longrightarrow> \<exists>st'. while_results rs st = Inr st' \<and> differences st' = differences st"
proof (induction rs arbitrary: st)
  case Nil
  show ?case by simp
next
  case (Cons r rs)
  then obtain t where r: "r = (DIFF_EQUAL, t)"
    by (cases r) auto
  show ?case
  proof (cases "rs = []")
    case True
    with r Cons.prems show ?thesis by simp
  next
    case False
    with r Cons.prems Cons.IH [of "st\<lparr>offset_var := offset_var st + length t\<rparr>"]
    show ?thesis by simp
  qed
qed

subsection \<open>Operations that join the batch\<close>

lemma while_results_joins:
  "list_all joins_batch mid \<Longrightarrow> rest \<noteq> [] \<Longrightarrow> batch st \<noteq> []
   \<Longrightarrow> while_results (mid @ rest) st = while_results rest (st\<lparr>batch := batch st @ mid\<rparr>)"
proof (induction mid arbitrary: st)
  case Nil
  show ?case by simp
next
  case (Cons r mid)
  obtain op u where r: "r = (op, u)"
    by (cases r)
  from Cons.prems r have "while_results (r # mid @ rest) st
      = while_results (mid @ rest) (st\<lparr>batch := batch st @ [r]\<rparr>)"
    by (cases op) (auto simp: joins_batch_def)
  moreover from Cons.prems
  have "while_results (mid @ rest) (st\<lparr>batch := batch st @ [r]\<rparr>)
      = while_results rest (st\<lparr>batch := batch st @ [r], batch := (batch st @ [r]) @ mid\<rparr>)"
    using Cons.IH [of "st\<lparr>batch := batch st @ [r]\<rparr>"] by simp
  ultimately show ?case
    by simp
qed

lemma while_results_grows:
  assumes "list_all defined_kind rs"
  shows "\<exists>st' later. while_results rs st = Inr st' \<and> differences st' = differences st @ later"
proof (cases "rs = []")
  case True
  then show ?thesis by simp
next
  case False
  from while_results_accounts [OF False assms, of st] show ?thesis
    by blast
qed

subsection \<open>The claims about generateDifferences\<close>

text \<open>
  C1 (round trip). For every edit script of Equal, Insert and Delete operations whose old
  side is \<open>source\<close> and whose new side is \<open>target\<close>, the coalescing loop of generateDifferences
  returns differences, and applying them to \<open>source\<close>, each at its offset into the original
  source, in order, replacing its deleteText by its insertText, succeeds and yields
  exactly \<open>target\<close>.
\<close>

theorem generateDifferences_round_trip:
  assumes "list_all defined_kind results"
    and "old_side results = source" and "new_side results = target"
  shows "\<exists>ds. coalesce results = Inr ds \<and> apply_differences source ds = Some target"
  using coalesce_accounts [OF assms(1)] assms(2,3)
  by (auto simp: accounts_for_def apply_differences_def)

theorem generateDifferences_round_trip_witness:
  "list_all defined_kind
     [(DIFF_EQUAL, utf16 ''x''), (DIFF_INSERT, utf16 '' ''), (DIFF_EQUAL, utf16 ''=''),
      (DIFF_INSERT, utf16 '' ''), (DIFF_EQUAL, utf16 ''1'')]
   \<and> old_side
     [(DIFF_EQUAL, utf16 ''x''), (DIFF_INSERT, utf16 '' ''), (DIFF_EQUAL, utf16 ''=''),
      (DIFF_INSERT, utf16 '' ''), (DIFF_EQUAL, utf16 ''1'')] = utf16 ''x=1''
   \<and> new_side
     [(DIFF_EQUAL, utf16 ''x''), (DIFF_INSERT, utf16 '' ''), (DIFF_EQUAL, utf16 ''=''),
      (DIFF_INSERT, utf16 '' ''), (DIFF_EQUAL, utf16 ''1'')] = utf16 ''x = 1''
   \<and> (\<exists>ds. coalesce
     [(DIFF_EQUAL, utf16 ''x''), (DIFF_INSERT, utf16 '' ''), (DIFF_EQUAL, utf16 ''=''),
      (DIFF_INSERT, utf16 '' ''), (DIFF_EQUAL, utf16 ''1'')] = Inr ds
        \<and> apply_differences (utf16 ''x=1'') ds = Some (utf16 ''x = 1''))"
  using generateDifferences_round_trip [of
     "[(DIFF_EQUAL, utf16 ''x''), (DIFF_INSERT, utf16 '' ''), (DIFF_EQUAL, utf16 ''=''),
      (DIFF_INSERT, utf16 '' ''), (DIFF_EQUAL, utf16 ''1'')]" "utf16 ''x=1''" "utf16 ''x = 1''"]
  by (simp add: defined_kind_def utf16_def)

text \<open>
  C6 (ordering). The differences that generateDifferences returns are in strictly ascending,
  non-overlapping order: of two consecutive differences the later one starts at or after
  the end of the text the earlier one deletes (nothing, when it has no deleteText) and
  strictly after the earlier one's offset; and every offset is an index into the original
  source, the deleted text ending inside it.
\<close>

theorem generateDifferences_ascending:
  assumes "coalesce results = Inr ds"
  shows "(\<forall>i. Suc i < length ds \<longrightarrow>
            offset (ds ! i) + length (deleted (ds ! i)) \<le> offset (ds ! Suc i)
            \<and> offset (ds ! i) < offset (ds ! Suc i))
         \<and> (\<forall>d \<in> set ds. offset d + length (deleted d) \<le> length (old_side results))"
proof -
  from assms have "list_all defined_kind results"
    by (rule coalesce_Inr_defined)
  from coalesce_accounts [OF this] assms
  have acc: "accounts_for 0 (old_side results) (new_side results) ds"
    by auto
  then have "ascending_from 0 ds"
    by (simp add: accounts_for_def)
  then have "offset (ds ! i) + length (deleted (ds ! i)) < offset (ds ! Suc i)"
    if "Suc i < length ds" for i
    using that by (rule ascending_from_nth)
  then have "\<forall>i. Suc i < length ds \<longrightarrow>
            offset (ds ! i) + length (deleted (ds ! i)) \<le> offset (ds ! Suc i)
            \<and> offset (ds ! i) < offset (ds ! Suc i)"
    by fastforce
  with acc show ?thesis
    by (simp add: accounts_for_def)
qed

theorem generateDifferences_ascending_witness:
  "coalesce
     [(DIFF_EQUAL, utf16 ''x''), (DIFF_INSERT, utf16 ''a''), (DIFF_EQUAL, [0x0A]),
      (DIFF_DELETE, utf16 ''bc''), (DIFF_EQUAL, utf16 ''1''), (DIFF_INSERT, utf16 ''d''),
      (DIFF_EQUAL, [0x0D, 0x0A, 0x20]), (DIFF_DELETE, utf16 ''z'')]
   = Inr [\<lparr>offset = 1, operation = INSERT, insertText = Some (utf16 ''a''), deleteText = None\<rparr>,
          \<lparr>offset = 2, operation = REPLACE, insertText = Some (utf16 ''1d''),
            deleteText = Some (utf16 ''bc1'')\<rparr>,
          \<lparr>offset = 8, operation = DELETE, insertText = None, deleteText = Some (utf16 ''z'')\<rparr>]
   \<and> (1::nat) + 0 \<le> 2 \<and> (1::nat) < 2 \<and> (2::nat) + 3 \<le> 8 \<and> (2::nat) < 8
   \<and> (8::nat) + 1 \<le> length (old_side
     [(DIFF_EQUAL, utf16 ''x''), (DIFF_INSERT, utf16 ''a''), (DIFF_EQUAL, [0x0A]),
      (DIFF_DELETE, utf16 ''bc''), (DIFF_EQUAL, utf16 ''1''), (DIFF_INSERT, utf16 ''d''),
      (DIFF_EQUAL, [0x0D, 0x0A, 0x20]), (DIFF_DELETE, utf16 ''z'')])"
proof -
  let ?script = "[(DIFF_EQUAL, utf16 ''x''), (DIFF_INSERT, utf16 ''a''), (DIFF_EQUAL, [0x0A]),
      (DIFF_DELETE, utf16 ''bc''), (DIFF_EQUAL, utf16 ''1''), (DIFF_INSERT, utf16 ''d''),
      (DIFF_EQUAL, [0x0D, 0x0A, 0x20]), (DIFF_DELETE, utf16 ''z'')]"
  let ?ds = "[\<lparr>offset = 1, operation = INSERT, insertText = Some (utf16 ''a''), deleteText = None\<rparr>,
          \<lparr>offset = 2, operation = REPLACE, insertText = Some (utf16 ''1d''),
            deleteText = Some (utf16 ''bc1'')\<rparr>,
          \<lparr>offset = 8, operation = DELETE, insertText = None, deleteText = Some (utf16 ''z'')\<rparr>]"
  have run: "coalesce ?script = Inr ?ds"
    by (simp add: coalesce_def flush_def utf16_def LINE_ENDING_RE_at_def)
  from generateDifferences_ascending [OF run] run show ?thesis
    by (simp add: utf16_def)
qed

text \<open>
  C8 (unrecognized operation). A script of Equal, Insert and Delete operations only is
  coalesced without error. A script with any other operation raises the error of the
  default case at the first such operation: the script splits into recognized operations,
  that operation and a rest, and the result is the error naming it.
\<close>

theorem generateDifferences_unrecognized_op:
  "(list_all defined_kind results \<longrightarrow> (\<exists>ds. coalesce results = Inr ds))
   \<and> (\<not> list_all defined_kind results \<longrightarrow>
        (\<exists>pre tag t post. results = pre @ (DIFF_OTHER tag, t) # post
           \<and> list_all defined_kind pre
           \<and> coalesce results = Inl (Unexpected_fast_diff_operation tag)))"
proof (intro conjI impI)
  assume "list_all defined_kind results"
  from coalesce_accounts [OF this] show "\<exists>ds. coalesce results = Inr ds"
    by blast
next
  assume "\<not> list_all defined_kind results"
  from first_unrecognized [OF this]
  obtain pre tag t post where "results = pre @ (DIFF_OTHER tag, t) # post"
    and "list_all defined_kind pre"
    by blast
  then show "\<exists>pre tag t post. results = pre @ (DIFF_OTHER tag, t) # post
           \<and> list_all defined_kind pre
           \<and> coalesce results = Inl (Unexpected_fast_diff_operation tag)"
    using coalesce_unrecognized by blast
qed

theorem generateDifferences_unrecognized_op_witness:
  "list_all defined_kind [(DIFF_DELETE, utf16 ''a''), (DIFF_INSERT, utf16 ''b'')]
   \<and> (\<exists>ds. coalesce [(DIFF_DELETE, utf16 ''a''), (DIFF_INSERT, utf16 ''b'')] = Inr ds)
   \<and> \<not> list_all defined_kind
        [(DIFF_DELETE, utf16 ''a''), (DIFF_OTHER (utf16 ''2''), utf16 ''b''), (DIFF_EQUAL, utf16 ''c'')]
   \<and> coalesce
        [(DIFF_DELETE, utf16 ''a''), (DIFF_OTHER (utf16 ''2''), utf16 ''b''), (DIFF_EQUAL, utf16 ''c'')]
      = Inl (Unexpected_fast_diff_operation (utf16 ''2''))"
proof -
  have good: "list_all defined_kind [(DIFF_DELETE, utf16 ''a''), (DIFF_INSERT, utf16 ''b'')]"
    by (simp add: defined_kind_def)
  have bad: "\<not> list_all defined_kind
        [(DIFF_DELETE, utf16 ''a''), (DIFF_OTHER (utf16 ''2''), utf16 ''b''), (DIFF_EQUAL, utf16 ''c'')]"
    by (simp add: defined_kind_def)
  from generateDifferences_unrecognized_op [of "[(DIFF_DELETE, utf16 ''a''), (DIFF_INSERT, utf16 ''b'')]"]
    good
  have "\<exists>ds. coalesce [(DIFF_DELETE, utf16 ''a''), (DIFF_INSERT, utf16 ''b'')] = Inr ds"
    by blast
  moreover
  from generateDifferences_unrecognized_op [of
      "[(DIFF_DELETE, utf16 ''a''), (DIFF_OTHER (utf16 ''2''), utf16 ''b''), (DIFF_EQUAL, utf16 ''c'')]"]
    bad
  obtain pre tag t post where
    split: "[(DIFF_DELETE, utf16 ''a''), (DIFF_OTHER (utf16 ''2''), utf16 ''b''), (DIFF_EQUAL, utf16 ''c'')]
       = pre @ (DIFF_OTHER tag, t) # post"
    and pre: "list_all defined_kind pre"
    and err: "coalesce
        [(DIFF_DELETE, utf16 ''a''), (DIFF_OTHER (utf16 ''2''), utf16 ''b''), (DIFF_EQUAL, utf16 ''c'')]
       = Inl (Unexpected_fast_diff_operation tag)"
    by blast
  have "tag = utf16 ''2''"
  proof (cases pre)
    case Nil
    with split show ?thesis by simp
  next
    case (Cons p pre')
    with split show ?thesis
      by (cases pre') (auto simp: Cons_eq_append_conv)
  qed
  ultimately show ?thesis
    using good bad err by simp
qed

text \<open>
  C5 (empty iff identical), as the code has it. If the coalesced sequence is empty, the old
  side and the new side of the script are the same string. Conversely, a script of Equal
  operations only, which is what the diff of a string against itself is (one Equal
  operation, or no operation for the empty string), is coalesced to the empty sequence.
  A script with Delete and Insert operations can have equal sides and still be reported:
  the claim as stated, for every script with equal sides, fails on such a script.
\<close>

theorem generateDifferences_empty:
  "(coalesce results = Inr [] \<longrightarrow> old_side results = new_side results)
   \<and> (list_all (\<lambda>r. fst r = DIFF_EQUAL) results \<longrightarrow>
        coalesce results = Inr [] \<and> old_side results = new_side results)
   \<and> (list_all (\<lambda>r. fst r = DIFF_EQUAL) (diff s s) \<longrightarrow> generateDifferences diff s s = Inr [])"
proof (intro conjI impI)
  assume empty: "coalesce results = Inr []"
  then have "list_all defined_kind results"
    by (rule coalesce_Inr_defined)
  from coalesce_accounts [OF this] empty
  have "accounts_for 0 (old_side results) (new_side results) []"
    by auto
  then have "apply_from 0 (old_side results) [] = Some (new_side results)"
    by (simp add: accounts_for_def)
  then show "old_side results = new_side results"
    by simp
next
  assume "list_all (\<lambda>r. fst r = DIFF_EQUAL) results"
  from while_results_all_equal [OF this, of "\<lparr>batch = [], offset_var = 0, differences = []\<rparr>"]
  show "coalesce results = Inr []"
    by (auto simp: coalesce_def)
next
  assume "list_all (\<lambda>r. fst r = DIFF_EQUAL) results"
  then show "old_side results = new_side results"
    by (induction results) auto
next
  assume "list_all (\<lambda>r. fst r = DIFF_EQUAL) (diff s s)"
  from while_results_all_equal [OF this, of "\<lparr>batch = [], offset_var = 0, differences = []\<rparr>"]
  show "generateDifferences diff s s = Inr []"
    by (auto simp: coalesce_def generateDifferences_def)
qed

theorem generateDifferences_empty_witness:
  "coalesce [(DIFF_EQUAL, utf16 ''ab'')] = Inr []
   \<and> old_side [(DIFF_EQUAL, utf16 ''ab'')] = new_side [(DIFF_EQUAL, utf16 ''ab'')]
   \<and> list_all (\<lambda>r. fst r = DIFF_EQUAL) [(DIFF_EQUAL, utf16 ''ab'')]
   \<and> generateDifferences (\<lambda>a b. [(DIFF_EQUAL, a)]) (utf16 ''ab'') (utf16 ''ab'') = Inr []"
  using generateDifferences_empty [of "[(DIFF_EQUAL, utf16 ''ab'')]" "\<lambda>a b. [(DIFF_EQUAL, a)]" "utf16 ''ab''"]
  by simp

text \<open>
  The script that deletes \<open>a\<close> and inserts \<open>a\<close> has the same old and new side and is
  reported as one replace.
\<close>

theorem generateDifferences_empty_counterexample:
  "old_side [(DIFF_DELETE, utf16 ''a''), (DIFF_INSERT, utf16 ''a'')]
     = new_side [(DIFF_DELETE, utf16 ''a''), (DIFF_INSERT, utf16 ''a'')]
   \<and> coalesce [(DIFF_DELETE, utf16 ''a''), (DIFF_INSERT, utf16 ''a'')]
     = Inr [\<lparr>offset = 0, operation = REPLACE, insertText = Some (utf16 ''a''),
             deleteText = Some (utf16 ''a'')\<rparr>]
   \<and> coalesce [(DIFF_DELETE, utf16 ''a''), (DIFF_INSERT, utf16 ''a'')] \<noteq> Inr []"
  by (simp add: coalesce_def flush_def utf16_def)

text \<open>
  C2 (Equal operation inside a batch), as the code has it. Take any state of the loop with
  a non-empty batch, an Equal operation with text \<open>t\<close> without a line ending, and after it
  any operations \<open>mid\<close> that join the batch (Insert, Delete, Equal without a line ending).
  If the script goes on, the Equal entry is appended and is still in the batch when the
  batch is flushed: at the next Equal operation with a line ending that is not the last
  operation, or after the last operation (which joins the batch first when it is an Insert
  or a Delete, and is left out when it is an Equal). The flush of a batch holding a
  non-empty Equal text \<open>t\<close> appends one replace whose deleteText and insertText both hold
  \<open>t\<close> at its place. If the Equal operation with text \<open>t\<close> is itself the last operation, the
  batch is flushed without it: the guard \<^verbatim>\<open>results.length > 0\<close> keeps it out.
\<close>

theorem equal_op_batched_unless_last:
  assumes "batch st \<noteq> []" and "\<not> LINE_ENDING_RE_test t" and "list_all joins_batch mid"
  shows "(LINE_ENDING_RE_test u \<and> after \<noteq> [] \<and> list_all defined_kind after \<longrightarrow>
            (\<exists>st' later.
                while_results ((DIFF_EQUAL, t) # mid @ (DIFF_EQUAL, u) # after) st = Inr st'
              \<and> differences st'
                  = differences (flush (st\<lparr>batch := batch st @ (DIFF_EQUAL, t) # mid\<rparr>)) @ later))
       \<and> (op = DIFF_INSERT \<or> op = DIFF_DELETE \<longrightarrow>
            while_results ((DIFF_EQUAL, t) # mid @ [(op, u)]) st
              = Inr (flush (st\<lparr>batch := batch st @ (DIFF_EQUAL, t) # mid @ [(op, u)]\<rparr>)))
       \<and> while_results ((DIFF_EQUAL, t) # mid @ [(DIFF_EQUAL, u)]) st
            = Inr (flush (st\<lparr>batch := batch st @ (DIFF_EQUAL, t) # mid\<rparr>))
       \<and> while_results [(DIFF_EQUAL, t)] st = Inr (flush st)
       \<and> (t \<noteq> [] \<longrightarrow>
            differences (flush (st\<lparr>batch := b1 @ (DIFF_EQUAL, t) # b2\<rparr>))
              = differences st @
                  [\<lparr>offset = offset_var st, operation = REPLACE,
                    insertText = Some (new_side b1 @ t @ new_side b2),
                    deleteText = Some (old_side b1 @ t @ old_side b2)\<rparr>])"
proof -
  from assms(2,3) have joins: "list_all joins_batch ((DIFF_EQUAL, t) # mid)"
    by (simp add: joins_batch_def)
  let ?st = "st\<lparr>batch := batch st @ (DIFF_EQUAL, t) # mid\<rparr>"
  have absorbed: "while_results (((DIFF_EQUAL, t) # mid) @ rest) st = while_results rest ?st"
    if "rest \<noteq> []" for rest
    using joins that assms(1) by (rule while_results_joins)
  have line_ending: "\<exists>st' later.
        while_results ((DIFF_EQUAL, t) # mid @ (DIFF_EQUAL, u) # after) st = Inr st'
      \<and> differences st' = differences (flush ?st) @ later"
    if u: "LINE_ENDING_RE_test u" and after: "after \<noteq> []" "list_all defined_kind after"
  proof -
    let ?next = "(flush ?st)\<lparr>offset_var := offset_var (flush ?st) + length u\<rparr>"
    from u after(1) have "while_results ((DIFF_EQUAL, u) # after) ?st = while_results after ?next"
      by (simp add: Let_def flush_emitted)
    moreover from while_results_grows [OF after(2), of ?next]
    obtain st' later where "while_results after ?next = Inr st'"
      and "differences st' = differences (flush ?st) @ later"
      by auto
    ultimately show ?thesis
      using absorbed [of "(DIFF_EQUAL, u) # after"] by auto
  qed
  have last_edit: "while_results ((DIFF_EQUAL, t) # mid @ [(op, u)]) st
        = Inr (flush (st\<lparr>batch := batch st @ (DIFF_EQUAL, t) # mid @ [(op, u)]\<rparr>))"
    if "op = DIFF_INSERT \<or> op = DIFF_DELETE"
    using that absorbed [of "[(op, u)]"] by auto
  have last_equal: "while_results ((DIFF_EQUAL, t) # mid @ [(DIFF_EQUAL, u)]) st = Inr (flush ?st)"
    using absorbed [of "[(DIFF_EQUAL, u)]"] by simp
  have alone: "while_results [(DIFF_EQUAL, t)] st = Inr (flush st)"
    using assms(1) by simp
  have texts: "differences (flush (st\<lparr>batch := b1 @ (DIFF_EQUAL, t) # b2\<rparr>))
      = differences st @
          [\<lparr>offset = offset_var st, operation = REPLACE,
            insertText = Some (new_side b1 @ t @ new_side b2),
            deleteText = Some (old_side b1 @ t @ old_side b2)\<rparr>]"
    if "t \<noteq> []"
    using that by (simp add: flush_emitted emitted_def)
  from line_ending last_edit last_equal alone texts show ?thesis
    by blast
qed

theorem equal_op_batched_unless_last_witness:
  "batch \<lparr>batch = [(DIFF_DELETE, utf16 ''a'')], offset_var = 3, differences = []\<rparr> \<noteq> []
   \<and> \<not> LINE_ENDING_RE_test (utf16 ''b'')
   \<and> list_all joins_batch [(DIFF_INSERT, utf16 ''c''), (DIFF_EQUAL, utf16 ''d''), (DIFF_DELETE, utf16 ''e'')]
   \<and> LINE_ENDING_RE_test [0x0A] \<and> [(DIFF_INSERT, utf16 ''f'')] \<noteq> []
   \<and> list_all defined_kind [(DIFF_INSERT, utf16 ''f'')]
   \<and> (\<exists>st'. while_results
          ((DIFF_EQUAL, utf16 ''b'')
           # [(DIFF_INSERT, utf16 ''c''), (DIFF_EQUAL, utf16 ''d''), (DIFF_DELETE, utf16 ''e'')]
           @ (DIFF_EQUAL, [0x0A]) # [(DIFF_INSERT, utf16 ''f'')])
          \<lparr>batch = [(DIFF_DELETE, utf16 ''a'')], offset_var = 3, differences = []\<rparr> = Inr st'
        \<and> (\<exists>later. differences st'
             = \<lparr>offset = 3, operation = REPLACE, insertText = Some (utf16 ''bcd''),
                 deleteText = Some (utf16 ''abde'')\<rparr> # later))
   \<and> while_results
          ((DIFF_EQUAL, utf16 ''b'')
           # [(DIFF_INSERT, utf16 ''c''), (DIFF_EQUAL, utf16 ''d''), (DIFF_DELETE, utf16 ''e'')]
           @ [(DIFF_INSERT, utf16 ''f'')])
          \<lparr>batch = [(DIFF_DELETE, utf16 ''a'')], offset_var = 3, differences = []\<rparr>
       = Inr \<lparr>batch = [], offset_var = 7,
              differences = [\<lparr>offset = 3, operation = REPLACE, insertText = Some (utf16 ''bcdf''),
                 deleteText = Some (utf16 ''abde'')\<rparr>]\<rparr>"
proof -
  let ?st = "\<lparr>batch = [(DIFF_DELETE, utf16 ''a'')], offset_var = 3, differences = []\<rparr>"
  let ?mid = "[(DIFF_INSERT, utf16 ''c''), (DIFF_EQUAL, utf16 ''d''), (DIFF_DELETE, utf16 ''e'')]"
  have h1: "batch ?st \<noteq> []"
    by simp
  have h2: "\<not> LINE_ENDING_RE_test (utf16 ''b'')"
    by (simp add: utf16_def LINE_ENDING_RE_at_def)
  have h3: "list_all joins_batch ?mid"
    by (simp add: joins_batch_def utf16_def LINE_ENDING_RE_at_def)
  have h4: "LINE_ENDING_RE_test [0x0A] \<and> [(DIFF_INSERT, utf16 ''f'')] \<noteq> []
      \<and> list_all defined_kind [(DIFF_INSERT, utf16 ''f'')]"
    by (simp add: defined_kind_def LINE_ENDING_RE_at_def)
  have flushed: "differences (flush (?st\<lparr>batch := batch ?st @ (DIFF_EQUAL, utf16 ''b'') # ?mid\<rparr>))
      = [\<lparr>offset = 3, operation = REPLACE, insertText = Some (utf16 ''bcd''),
          deleteText = Some (utf16 ''abde'')\<rparr>]"
    by (simp add: flush_def utf16_def)
  note inst = equal_op_batched_unless_last [OF h1 h2 h3,
      where u = "[0x0A]" and after = "[(DIFF_INSERT, utf16 ''f'')]"]
  note last = equal_op_batched_unless_last [OF h1 h2 h3,
      where u = "utf16 ''f''" and op = DIFF_INSERT]
  from inst [THEN conjunct1] h4
  obtain st' later where run: "while_results
          ((DIFF_EQUAL, utf16 ''b'') # ?mid @ (DIFF_EQUAL, [0x0A]) # [(DIFF_INSERT, utf16 ''f'')])
          ?st = Inr st'"
    and "differences st'
      = differences (flush (?st\<lparr>batch := batch ?st @ (DIFF_EQUAL, utf16 ''b'') # ?mid\<rparr>)) @ later"
    by blast
  then have "differences st'
      = \<lparr>offset = 3, operation = REPLACE, insertText = Some (utf16 ''bcd''),
          deleteText = Some (utf16 ''abde'')\<rparr> # later"
    by (simp only: flushed append_Cons append_Nil)
  with run
  have "\<exists>st'. while_results
          ((DIFF_EQUAL, utf16 ''b'') # ?mid @ (DIFF_EQUAL, [0x0A]) # [(DIFF_INSERT, utf16 ''f'')])
          ?st = Inr st'
        \<and> (\<exists>later. differences st'
             = \<lparr>offset = 3, operation = REPLACE, insertText = Some (utf16 ''bcd''),
                 deleteText = Some (utf16 ''abde'')\<rparr> # later)"
    by blast
  moreover
  have "flush (?st\<lparr>batch := batch ?st @ (DIFF_EQUAL, utf16 ''b'') # ?mid @ [(DIFF_INSERT, utf16 ''f'')]\<rparr>)
      = \<lparr>batch = [], offset_var = 7,
              differences = [\<lparr>offset = 3, operation = REPLACE, insertText = Some (utf16 ''bcdf''),
                 deleteText = Some (utf16 ''abde'')\<rparr>]\<rparr>"
    by (simp add: flush_def utf16_def)
  with last [THEN conjunct2, THEN conjunct1]
  have "while_results
          ((DIFF_EQUAL, utf16 ''b'') # ?mid @ [(DIFF_INSERT, utf16 ''f'')]) ?st
       = Inr \<lparr>batch = [], offset_var = 7,
              differences = [\<lparr>offset = 3, operation = REPLACE, insertText = Some (utf16 ''bcdf''),
                 deleteText = Some (utf16 ''abde'')\<rparr>]\<rparr>"
    by simp
  ultimately show ?thesis
    using h1 h2 h3 h4 by blast
qed

text \<open>
  With a deletion in the batch, a final Equal operation without a line ending is not
  appended: the script "delete \<open>a\<close>, equal \<open>b\<close>" is reported as the deletion of \<open>a\<close> alone.
\<close>

theorem final_equal_op_counterexample:
  "batch \<lparr>batch = [(DIFF_DELETE, utf16 ''a'')], offset_var = 0, differences = []\<rparr> \<noteq> []
   \<and> \<not> LINE_ENDING_RE_test (utf16 ''b'')
   \<and> switch_op (DIFF_EQUAL, utf16 ''b'') []
        \<lparr>batch = [(DIFF_DELETE, utf16 ''a'')], offset_var = 0, differences = []\<rparr>
      \<noteq> Inr \<lparr>batch = [(DIFF_DELETE, utf16 ''a''), (DIFF_EQUAL, utf16 ''b'')],
               offset_var = 0, differences = []\<rparr>
   \<and> coalesce [(DIFF_DELETE, utf16 ''a''), (DIFF_EQUAL, utf16 ''b'')]
      = Inr [\<lparr>offset = 0, operation = DELETE, insertText = None, deleteText = Some (utf16 ''a'')\<rparr>]"
  by (simp add: coalesce_def flush_def utf16_def LINE_ENDING_RE_at_def)

section \<open>Properties of mergeConfigs\<close>

subsection \<open>Property reads and writes, and the loop\<close>

lemma mergeConfigs_truthy:
  "truthy base \<Longrightarrow> truthy override \<Longrightarrow>
   mergeConfigs base override
     = fold (merge_key override) (Object_keys override) (Obj Object_prototype (own_props base))"
proof -
  have "(\<lambda>key result.
          let valA = get_prop result key; valB = own_value (own_props override) key
          in if is_plain_object valA \<and> is_plain_object valB
             then set_prop result key (mergeConfigs valA valB)
             else set_prop result key valB) = merge_key override"
    by (intro ext) (simp add: merge_key_def merged_value_def Let_def)
  moreover assume "truthy base" "truthy override"
  ultimately show ?thesis
    by (simp add: mergeConfigs.simps [of base override])
qed

lemma mergeConfigs_Obj:
  "mergeConfigs (Obj qa pa) (Obj qb pb)
     = fold (merge_key (Obj qb pb)) (map fst pb) (Obj Object_prototype pa)"
  by (simp add: mergeConfigs_truthy Object_keys_def)

lemma map_of_put_own: "map_of (put_own kvs key v) = (map_of kvs)(key \<mapsto> v)"
  by (induction kvs) (auto simp: fun_eq_iff)

lemma keys_put_own: "fst ` set (put_own kvs key v) = insert key (fst ` set kvs)"
  by (simp add: dom_map_of_conv_image_fst [symmetric] map_of_put_own)

lemma put_own_same: "map_of kvs key = Some v \<Longrightarrow> put_own kvs key v = kvs"
  by (induction kvs) (auto split: if_splits)

lemma put_own_new: "key \<notin> fst ` set kvs \<Longrightarrow> put_own kvs key v = kvs @ [(key, v)]"
  by (induction kvs) auto

lemma distinct_put_own:
  "distinct (map fst kvs) \<Longrightarrow> distinct (map fst (put_own kvs key v))"
  by (induction kvs) (auto simp: keys_put_own)

lemma own_value_Some: "map_of kvs k = Some v \<Longrightarrow> own_value kvs k = v"
  by (simp add: own_value_def)

lemma own_value_None: "map_of kvs k = None \<Longrightarrow> own_value kvs k = Undefined"
  by (simp add: own_value_def)

lemma key_present: "map_of kvs k = Some v \<Longrightarrow> k \<in> fst ` set kvs"
  by (auto dest: map_of_SomeD intro: rev_image_eqI)

lemma set_prop_is_Obj: "\<exists>p' kvs'. set_prop (Obj p kvs) key v = Obj p' kvs'"
  by simp

lemma set_prop_other:
  "k \<noteq> key \<Longrightarrow> map_of (own_props (set_prop r key v)) k = map_of (own_props r) k"
  by (cases r) (simp_all add: map_of_put_own)

lemma merge_key_is_Obj: "\<exists>p' kvs'. merge_key override key (Obj p kvs) = Obj p' kvs'"
  unfolding merge_key_def by (rule set_prop_is_Obj)

lemma merge_key_other:
  "k \<noteq> key \<Longrightarrow> map_of (own_props (merge_key override key r)) k = map_of (own_props r) k"
  unfolding merge_key_def by (rule set_prop_other)

lemma merge_key_own:
  assumes "map_of kvs key = Some va"
  shows "merge_key override key (Obj p kvs)
     = Obj p (put_own kvs key (merged_value va (own_value (own_props override) key)))"
  using assms key_present [OF assms] by (simp add: merge_key_def)

lemma fold_merge_key_is_Obj:
  "\<exists>p' kvs'. fold (merge_key override) keys (Obj p kvs) = Obj p' kvs'"
proof (induction keys arbitrary: p kvs)
  case Nil
  show ?case by simp
next
  case (Cons key keys)
  from merge_key_is_Obj [of override key p kvs] Cons.IH show ?case
    by auto
qed

lemma fold_merge_key_other:
  "k \<notin> set keys \<Longrightarrow>
   map_of (own_props (fold (merge_key override) keys r)) k = map_of (own_props r) k"
  by (induction keys arbitrary: r) (simp_all add: merge_key_other)

lemma fold_merge_key_own:
  "distinct keys \<Longrightarrow> k \<in> set keys \<Longrightarrow> map_of kvs k = Some va \<Longrightarrow>
   map_of (own_props (fold (merge_key override) keys (Obj p kvs))) k
     = Some (merged_value va (own_value (own_props override) k))"
proof (induction keys arbitrary: p kvs)
  case Nil
  then show ?case by simp
next
  case (Cons key keys)
  show ?case
  proof (cases "key = k")
    case True
    with Cons.prems have "k \<notin> set keys"
      by simp
    then show ?thesis
      using True Cons.prems(3)
      by (simp add: fold_merge_key_other merge_key_own map_of_put_own)
  next
    case False
    obtain p' kvs' where step: "merge_key override key (Obj p kvs) = Obj p' kvs'"
      using merge_key_is_Obj by blast
    from False have "map_of (own_props (merge_key override key (Obj p kvs))) k
        = map_of (own_props (Obj p kvs)) k"
      by (intro merge_key_other) simp
    with step Cons.prems(3) have "map_of kvs' k = Some va"
      by simp
    with Cons.prems False Cons.IH [of kvs' p'] step show ?thesis
      by simp
  qed
qed

subsection \<open>Merging an object with itself\<close>

lemma fold_merge_key_self:
  assumes same: "\<And>k v. (k, v) \<in> set pa \<Longrightarrow> is_plain_object v \<Longrightarrow> mergeConfigs v v = v"
  shows "set keys \<subseteq> fst ` set pa
    \<Longrightarrow> fold (merge_key (Obj q pa)) keys (Obj p pa) = Obj p pa"
proof (induction keys)
  case Nil
  show ?case by simp
next
  case (Cons key keys)
  then obtain v where v: "map_of pa key = Some v"
    by (auto dest: weak_map_of_SomeI)
  then have "(key, v) \<in> set pa"
    by (rule map_of_SomeD)
  with same have "merged_value v v = v"
    by (auto simp: merged_value_def)
  with v have "merge_key (Obj q pa) key (Obj p pa) = Obj p pa"
    by (simp add: merge_key_own own_value_Some put_own_same)
  with Cons show ?case
    by simp
qed

lemma mergeConfigs_same:
  "ordinary_tree a \<Longrightarrow> is_plain_object a \<Longrightarrow> mergeConfigs a a = a"
proof (induction a)
  case (Obj p pa)
  then have p: "p = Object_prototype"
    by simp
  have "mergeConfigs v v = v" if "(k, v) \<in> set pa" and "is_plain_object v" for k v
  proof -
    from that(1) Obj.prems(1) have "ordinary_tree v"
      by auto
    with that Obj.IH(2) [of "(k, v)" v] show ?thesis
      by simp
  qed
  then have "fold (merge_key (Obj p pa)) (map fst pa) (Obj Object_prototype pa)
      = Obj Object_prototype pa"
    by (intro fold_merge_key_self) auto
  with p show ?case
    by (simp add: mergeConfigs_Obj)
qed (simp_all add: is_plain_object_def)

subsection \<open>Merging when no setter runs\<close>

text \<open>
  When \<^verbatim>\<open>__proto__\<close> is not a key that only the override has, the prototype of the result
  stays \<^verbatim>\<open>Object.prototype\<close> and the merge is the key-by-key merge of the two property lists.
\<close>

lemma merge_key_new:
  assumes "map_of kvs key = None" and "key \<noteq> proto_key"
  shows "merge_key override key (Obj Object_prototype kvs)
     = Obj Object_prototype (kvs @ [(key, own_value (own_props override) key)])"
proof -
  from assms(1) have "key \<notin> fst ` set kvs"
    by (simp add: map_of_eq_None_iff)
  with assms show ?thesis
    by (simp add: merge_key_def merged_value_def is_plain_object_def put_own_new)
qed

lemma fold_merge_key_ordinary:
  assumes "distinct keys" and "proto_key \<in> set keys \<longrightarrow> proto_key \<in> fst ` set kvs"
  shows "\<exists>kvs'. fold (merge_key override) keys (Obj Object_prototype kvs) = Obj Object_prototype kvs'
     \<and> fst ` set kvs' = fst ` set kvs \<union> set keys
     \<and> (distinct (map fst kvs) \<longrightarrow> distinct (map fst kvs'))
     \<and> (\<forall>k. map_of kvs' k =
           (if k \<in> set keys
            then Some (merged_value (own_value kvs k) (own_value (own_props override) k))
            else map_of kvs k))"
  using assms
proof (induction keys arbitrary: kvs)
  case Nil
  show ?case by simp
next
  case (Cons key keys)
  let ?m = "merged_value (own_value kvs key) (own_value (own_props override) key)"
  have step: "merge_key override key (Obj Object_prototype kvs)
      = Obj Object_prototype (put_own kvs key ?m)"
  proof (cases "map_of kvs key")
    case None
    then have absent: "key \<notin> fst ` set kvs"
      by (simp add: map_of_eq_None_iff)
    with Cons.prems(2) have "key \<noteq> proto_key"
      by auto
    with None absent show ?thesis
      by (simp add: merge_key_new put_own_new own_value_None merged_value_def
          is_plain_object_def)
  next
    case (Some va)
    then show ?thesis
      by (simp add: merge_key_own own_value_Some)
  qed
  from Cons.prems have "distinct keys"
    and "proto_key \<in> set keys \<longrightarrow> proto_key \<in> fst ` set (put_own kvs key ?m)"
    by (auto simp: keys_put_own)
  from Cons.IH [OF this]
  obtain kvs' where run: "fold (merge_key override) keys (Obj Object_prototype (put_own kvs key ?m))
        = Obj Object_prototype kvs'"
    and keys: "fst ` set kvs' = fst ` set (put_own kvs key ?m) \<union> set keys"
    and dist: "distinct (map fst (put_own kvs key ?m)) \<longrightarrow> distinct (map fst kvs')"
    and vals: "\<And>k. map_of kvs' k =
           (if k \<in> set keys
            then Some (merged_value (own_value (put_own kvs key ?m) k)
                         (own_value (own_props override) k))
            else map_of (put_own kvs key ?m) k)"
    by blast
  have other: "own_value (put_own kvs key ?m) k = own_value kvs k" if "k \<noteq> key" for k
    using that by (simp add: own_value_def map_of_put_own)
  have "distinct (map fst kvs) \<Longrightarrow> distinct (map fst (put_own kvs key ?m))"
    by (rule distinct_put_own)
  with dist have "distinct (map fst kvs) \<longrightarrow> distinct (map fst kvs')"
    by blast
  moreover have "fst ` set kvs' = fst ` set kvs \<union> set (key # keys)"
    using keys by (auto simp: keys_put_own)
  moreover have "map_of kvs' k =
           (if k \<in> set (key # keys)
            then Some (merged_value (own_value kvs k) (own_value (own_props override) k))
            else map_of kvs k)" for k
  proof (cases "k = key")
    case True
    with Cons.prems(1) vals [of k] show ?thesis
      by (simp add: map_of_put_own)
  next
    case False
    with vals [of k] other [OF False] show ?thesis
      by (simp add: map_of_put_own)
  qed
  ultimately show ?case
    using step run by simp
qed

lemma mergeConfigs_key_by_key_unless_proto:
  assumes "distinct (map fst pb)"
    and "proto_key \<in> fst ` set pb \<longrightarrow> proto_key \<in> fst ` set pa"
  shows "\<exists>pr. mergeConfigs (Obj qa pa) (Obj qb pb) = Obj Object_prototype pr
     \<and> fst ` set pr = fst ` set pa \<union> fst ` set pb
     \<and> (distinct (map fst pa) \<longrightarrow> distinct (map fst pr))
     \<and> (\<forall>k va. map_of pa k = Some va \<and> map_of pb k = None \<longrightarrow> map_of pr k = Some va)
     \<and> (\<forall>k vb. map_of pa k = None \<and> map_of pb k = Some vb \<longrightarrow> map_of pr k = Some vb)
     \<and> (\<forall>k va vb. map_of pa k = Some va \<and> map_of pb k = Some vb
           \<and> is_plain_object va \<and> is_plain_object vb
           \<longrightarrow> map_of pr k = Some (mergeConfigs va vb))"
proof -
  from assms have "distinct (map fst pb)"
    and "proto_key \<in> set (map fst pb) \<longrightarrow> proto_key \<in> fst ` set pa"
    by simp_all
  from fold_merge_key_ordinary [OF this, of "Obj qb pb"]
  obtain pr where run: "fold (merge_key (Obj qb pb)) (map fst pb) (Obj Object_prototype pa)
        = Obj Object_prototype pr"
    and keys: "fst ` set pr = fst ` set pa \<union> fst ` set pb"
    and dist: "distinct (map fst pa) \<longrightarrow> distinct (map fst pr)"
    and vals: "\<And>k. map_of pr k =
           (if k \<in> fst ` set pb
            then Some (merged_value (own_value pa k) (own_value pb k))
            else map_of pa k)"
    by auto
  have "map_of pr k = Some va" if "map_of pa k = Some va \<and> map_of pb k = None" for k va
    using that vals [of k] by (simp add: map_of_eq_None_iff)
  moreover have "map_of pr k = Some vb" if "map_of pa k = None \<and> map_of pb k = Some vb" for k vb
    using that vals [of k] key_present [of pb k vb]
    by (simp add: own_value_Some own_value_None merged_value_def is_plain_object_def)
  moreover have "map_of pr k = Some (mergeConfigs va vb)"
    if "map_of pa k = Some va \<and> map_of pb k = Some vb \<and> is_plain_object va \<and> is_plain_object vb"
    for k va vb
    using that vals [of k] key_present [of pb k vb]
    by (simp add: own_value_Some merged_value_def)
  ultimately show ?thesis
    using run keys dist by (simp add: mergeConfigs_Obj)
qed

lemma fold_merge_key_into_prefix:
  "distinct (map fst (pre @ post)) \<Longrightarrow> set (pre @ post) \<subseteq> set pb \<Longrightarrow> distinct (map fst pb)
   \<Longrightarrow> proto_key \<notin> fst ` set post
   \<Longrightarrow> fold (merge_key (Obj qb pb)) (map fst post) (Obj Object_prototype pre)
        = Obj Object_prototype (pre @ post)"
proof (induction post arbitrary: pre)
  case Nil
  show ?case by simp
next
  case (Cons kv post)
  obtain k v where kv: "kv = (k, v)"
    by (cases kv)
  from Cons.prems kv have fresh: "k \<notin> fst ` set pre" and k: "k \<noteq> proto_key"
    by auto
  from fresh have "map_of pre k = None"
    by (simp add: map_of_eq_None_iff)
  moreover from Cons.prems kv have "map_of pb k = Some v"
    by simp
  then have "own_value pb k = v"
    by (rule own_value_Some)
  ultimately have "merge_key (Obj qb pb) k (Obj Object_prototype pre)
      = Obj Object_prototype (pre @ [(k, v)])"
    using k by (simp add: merge_key_new)
  moreover from Cons.prems kv
  have "fold (merge_key (Obj qb pb)) (map fst post) (Obj Object_prototype (pre @ [(k, v)]))
      = Obj Object_prototype ((pre @ [(k, v)]) @ post)"
    by (intro Cons.IH) simp_all
  ultimately show ?case
    using kv by simp
qed

lemma mergeConfigs_identity_unless_proto:
  "mergeConfigs (Obj Object_prototype pa) (Obj Object_prototype []) = Obj Object_prototype pa
   \<and> (distinct (map fst pb) \<and> proto_key \<notin> fst ` set pb \<longrightarrow>
        mergeConfigs (Obj Object_prototype []) (Obj Object_prototype pb) = Obj Object_prototype pb)"
  using fold_merge_key_into_prefix [of "[]" pb pb Object_prototype]
  by (simp add: mergeConfigs_Obj)

subsection \<open>The claims about mergeConfigs\<close>

text \<open>
  C3 (override precedence). For objects \<open>a\<close> and \<open>b\<close> and a key present in both, if the two
  values are not both non-array objects (one of them is a scalar, an array or null), the
  merged object has \<open>b\<close>'s value as its own property under that key, and reading the key
  gives that value; an array on both sides is replaced by \<open>b\<close>'s array, never concatenated.
  The keys of an object are distinct.
\<close>

theorem mergeConfigs_override_wins:
  assumes "distinct (map fst pb)"
    and "map_of pa k = Some va" and "map_of pb k = Some vb"
    and "\<not> (is_plain_object va \<and> is_plain_object vb)"
  shows "\<exists>p pr. mergeConfigs (Obj qa pa) (Obj qb pb) = Obj p pr
           \<and> map_of pr k = Some vb \<and> get_prop (Obj p pr) k = vb"
proof -
  let ?result = "fold (merge_key (Obj qb pb)) (map fst pb) (Obj Object_prototype pa)"
  obtain p pr where result: "?result = Obj p pr"
    using fold_merge_key_is_Obj by blast
  from assms(3) have "k \<in> set (map fst pb)"
    using key_present by fastforce
  with assms(1,2)
  have "map_of (own_props ?result) k
      = Some (merged_value va (own_value (own_props (Obj qb pb)) k))"
    by (intro fold_merge_key_own)
  moreover from assms(3) have "own_value pb k = vb"
    by (rule own_value_Some)
  moreover from assms(4) have "merged_value va vb = vb"
    by (auto simp: merged_value_def)
  ultimately have "map_of pr k = Some vb"
    using result by simp
  with result show ?thesis
    by (simp add: mergeConfigs_Obj)
qed

theorem mergeConfigs_override_wins_witness:
  "distinct (map fst [(utf16 ''plugins'', Arr [Str (utf16 ''p3'')])])
   \<and> map_of [(utf16 ''plugins'', Arr [Str (utf16 ''p1''), Str (utf16 ''p2'')])] (utf16 ''plugins'')
       = Some (Arr [Str (utf16 ''p1''), Str (utf16 ''p2'')])
   \<and> map_of [(utf16 ''plugins'', Arr [Str (utf16 ''p3'')])] (utf16 ''plugins'')
       = Some (Arr [Str (utf16 ''p3'')])
   \<and> \<not> (is_plain_object (Arr [Str (utf16 ''p1''), Str (utf16 ''p2'')])
          \<and> is_plain_object (Arr [Str (utf16 ''p3'')]))
   \<and> (\<exists>p pr. mergeConfigs
                 (Obj Object_prototype
                    [(utf16 ''plugins'', Arr [Str (utf16 ''p1''), Str (utf16 ''p2'')])])
                 (Obj Object_prototype [(utf16 ''plugins'', Arr [Str (utf16 ''p3'')])]) = Obj p pr
           \<and> map_of pr (utf16 ''plugins'') = Some (Arr [Str (utf16 ''p3'')])
           \<and> get_prop (Obj p pr) (utf16 ''plugins'') = Arr [Str (utf16 ''p3'')])"
  using mergeConfigs_override_wins [of "[(utf16 ''plugins'', Arr [Str (utf16 ''p3'')])]"
      "[(utf16 ''plugins'', Arr [Str (utf16 ''p1''), Str (utf16 ''p2'')])]" "utf16 ''plugins''"
      "Arr [Str (utf16 ''p1''), Str (utf16 ''p2'')]" "Arr [Str (utf16 ''p3'')]"
      Object_prototype Object_prototype]
  by (simp add: is_plain_object_def)

text \<open>
  C4 (recursion), at an input where the code departs from it. The key \<^verbatim>\<open>__proto__\<close> is an
  own key of the override (as \<^verbatim>\<open>JSON.parse\<close> makes it) and not of the base. The assignment
  \<^verbatim>\<open>result[key] = ...\<close> runs the inherited setter: the result has no own key \<^verbatim>\<open>__proto__\<close>, so
  its keys are not the union of the keys, and the value is not copied but becomes the
  prototype of the result. The key \<^verbatim>\<open>rules\<close>, which only the override has too, is then read
  through that prototype and merged with what it finds there instead of being copied.
\<close>

theorem mergeConfigs_key_by_key_proto_key:
  "map_of [(utf16 ''a'', Num 1)] proto_key = None
   \<and> map_of [(utf16 ''a'', Num 1)] (utf16 ''rules'') = None
   \<and> distinct (map fst
         [(proto_key, Obj Object_prototype
             [(utf16 ''rules'', Obj Object_prototype [(utf16 ''a'', Str (utf16 ''error''))])]),
          (utf16 ''rules'', Obj Object_prototype [(utf16 ''b'', Str (utf16 ''off''))])])
   \<and> mergeConfigs (Obj Object_prototype [(utf16 ''a'', Num 1)])
       (Obj Object_prototype
          [(proto_key, Obj Object_prototype
             [(utf16 ''rules'', Obj Object_prototype [(utf16 ''a'', Str (utf16 ''error''))])]),
           (utf16 ''rules'', Obj Object_prototype [(utf16 ''b'', Str (utf16 ''off''))])])
     = Obj (Obj Object_prototype
             [(utf16 ''rules'', Obj Object_prototype [(utf16 ''a'', Str (utf16 ''error''))])])
         [(utf16 ''a'', Num 1),
          (utf16 ''rules'', Obj Object_prototype
             [(utf16 ''a'', Str (utf16 ''error'')), (utf16 ''b'', Str (utf16 ''off''))])]
   \<and> proto_key \<notin> fst ` set
         [(utf16 ''a'', Num 1),
          (utf16 ''rules'', Obj Object_prototype
             [(utf16 ''a'', Str (utf16 ''error'')), (utf16 ''b'', Str (utf16 ''off''))])]
   \<and> Obj Object_prototype
         [(utf16 ''a'', Str (utf16 ''error'')), (utf16 ''b'', Str (utf16 ''off''))]
       \<noteq> Obj Object_prototype [(utf16 ''b'', Str (utf16 ''off''))]"
  by (simp add: mergeConfigs.simps Object_keys_def own_value_def is_plain_object_def
      proto_key_def utf16_def)

text \<open>
  C7 (identity), at an input where the code departs from it. With the empty object as base
  and an override whose only own key is \<^verbatim>\<open>__proto__\<close>, the merge returns an object with no
  own property, whose prototype is the override's value: not the override. With the two
  arguments exchanged the spread copies the key and the merge returns the object.
\<close>

theorem mergeConfigs_identity_proto_key:
  "mergeConfigs (Obj Object_prototype [])
       (Obj Object_prototype [(proto_key, Obj Object_prototype [(utf16 ''x'', Str (utf16 ''y''))])])
     = Obj (Obj Object_prototype [(utf16 ''x'', Str (utf16 ''y''))]) []
   \<and> mergeConfigs (Obj Object_prototype [])
       (Obj Object_prototype [(proto_key, Obj Object_prototype [(utf16 ''x'', Str (utf16 ''y''))])])
     \<noteq> Obj Object_prototype [(proto_key, Obj Object_prototype [(utf16 ''x'', Str (utf16 ''y''))])]
   \<and> Object_keys (mergeConfigs (Obj Object_prototype [])
       (Obj Object_prototype [(proto_key, Obj Object_prototype [(utf16 ''x'', Str (utf16 ''y''))])]))
     = []
   \<and> mergeConfigs
       (Obj Object_prototype [(proto_key, Obj Object_prototype [(utf16 ''x'', Str (utf16 ''y''))])])
       (Obj Object_prototype [])
     = Obj Object_prototype [(proto_key, Obj Object_prototype [(utf16 ''x'', Str (utf16 ''y''))])]"
  by (simp add: mergeConfigs.simps Object_keys_def own_value_def is_plain_object_def
      proto_key_def utf16_def)

text \<open>
  C10 (idempotence). Merging a configuration object with itself gives the object back,
  whatever it holds at any depth. The configuration object is an ordinary tree.
\<close>

theorem mergeConfigs_idempotent:
  "ordinary_tree (Obj Object_prototype pa) \<Longrightarrow>
   mergeConfigs (Obj Object_prototype pa) (Obj Object_prototype pa) = Obj Object_prototype pa"
  by (rule mergeConfigs_same) (simp_all add: is_plain_object_def)

theorem mergeConfigs_idempotent_witness:
  "ordinary_tree (Obj Object_prototype
       [(utf16 ''rules'', Obj Object_prototype [(utf16 ''a'', Str (utf16 ''error''))]),
        (utf16 ''plugins'', Arr [Str (utf16 ''p1'')]),
        (proto_key, Obj Object_prototype [(utf16 ''x'', Null)])])
   \<and> mergeConfigs
       (Obj Object_prototype
         [(utf16 ''rules'', Obj Object_prototype [(utf16 ''a'', Str (utf16 ''error''))]),
          (utf16 ''plugins'', Arr [Str (utf16 ''p1'')]),
          (proto_key, Obj Object_prototype [(utf16 ''x'', Null)])])
       (Obj Object_prototype
         [(utf16 ''rules'', Obj Object_prototype [(utf16 ''a'', Str (utf16 ''error''))]),
          (utf16 ''plugins'', Arr [Str (utf16 ''p1'')]),
          (proto_key, Obj Object_prototype [(utf16 ''x'', Null)])])
     = Obj Object_prototype
         [(utf16 ''rules'', Obj Object_prototype [(utf16 ''a'', Str (utf16 ''error''))]),
          (utf16 ''plugins'', Arr [Str (utf16 ''p1'')]),
          (proto_key, Obj Object_prototype [(utf16 ''x'', Null)])]"
  using mergeConfigs_idempotent [of
       "[(utf16 ''rules'', Obj Object_prototype [(utf16 ''a'', Str (utf16 ''error''))]),
         (utf16 ''plugins'', Arr [Str (utf16 ''p1'')]),
         (proto_key, Obj Object_prototype [(utf16 ''x'', Null)])]"]
  by simp

end
